theory Spec2Isabelle
  imports Main "HOL-Library.AList" "HOL-Library.Sublist"
begin

section \<open>The hierarchy of labels of sjasmplus-doc-tool\<close>

text \<open>
  This theory embeds the class \<open>HierarchyEntry\<close> of \<open>src/hierarchyentry.ts\<close>:
  the lookup \<open>getEntry\<close>, the description attachment \<open>setDescriptions\<close> with
  its static helper \<open>getSingleDescription\<close>, and the traversal \<open>iterate\<close>.

  Conventions of the embedding.
  \<^item> A JavaScript string is a \<^typ>\<open>string\<close>; a \<^typ>\<open>char\<close> stands for a code unit below 256.
  \<^item> The numbers used as line numbers and indices are integers (\<^typ>\<open>int\<close>); the sentinel is \<open>-1\<close>.
  \<^item> \<open>undefined\<close> is \<^const>\<open>None\<close>.
  \<^item> A \<open>Map<string,HierarchyEntry>\<close> is an association list in insertion order;
    \<open>Map.get\<close> is \<^const>\<open>map_of\<close>. The keys of a \<open>Map\<close> are distinct; a
    property that needs this says so.
  \<^item> A tree is a value: a node owns its children, and no node occurs twice in a tree.
  \<^item> The static method \<open>ListFile.getMainLine\<close> lives in \<open>listfile.ts\<close>, which is not
    part of the sources at hand. It is a parameter \<open>getMainLine\<close> of every function that
    calls it. It is declared on strings; handing it \<open>undefined\<close> is recorded as an error.
\<close>

subsection \<open>Regular expressions of the source\<close>

definition isWhiteSpace :: "char \<Rightarrow> bool" where
  \<comment> \<open>The class \<open>\s\<close> of JavaScript, on code units below 256: tab, line feed, vertical tab,
      form feed, carriage return, space and no-break space.\<close>
  "isWhiteSpace c \<longleftrightarrow>
     c = CHR 0x09 \<or> c = CHR 0x0A \<or> c = CHR 0x0B \<or> c = CHR 0x0C \<or> c = CHR 0x0D
     \<or> c = CHR 0x20 \<or> c = CHR 0xA0"

definition isLineTerminator :: "char \<Rightarrow> bool" where
  \<comment> \<open>What \<open>.\<close> does not match, on code units below 256: line feed and carriage return.\<close>
  "isLineTerminator c \<longleftrightarrow> c = CHR 0x0A \<or> c = CHR 0x0D"

definition matchesEmpty :: "string \<Rightarrow> bool" where
  \<comment> \<open>\<open>/^\s*$/.exec(line)\<close> is not null. Without the flag \<open>m\<close>, \<open>$\<close> is the end of the input.\<close>
  "matchesEmpty line \<longleftrightarrow> list_all isWhiteSpace line"

definition matchComment :: "string \<Rightarrow> string option" where
  \<comment> \<open>\<open>/^\s*;(.*)/.exec(line)\<close>: \<^const>\<open>None\<close> for null, otherwise the group \<open>match[1]\<close>.
      A semicolon is no white space, so the greedy \<open>\s*\<close> never has to give anything back.\<close>
  "matchComment line =
     (case dropWhile isWhiteSpace line of
        [] \<Rightarrow> None
      | c # rest \<Rightarrow>
          if c = CHR 0x3B then Some (takeWhile (\<lambda>d. \<not> isLineTerminator d) rest) else None)"

definition toString :: "string option \<Rightarrow> string" where
  \<comment> \<open>\<open>RegExp.prototype.exec\<close> converts its argument to a string; \<open>undefined\<close> becomes
      the text \<open>undefined\<close>.\<close>
  "toString v = (case v of None \<Rightarrow> ''undefined'' | Some s \<Rightarrow> s)"

subsection \<open>Arrays of lines\<close>

definition lineAt :: "string list \<Rightarrow> int \<Rightarrow> string option" where
  \<comment> \<open>\<open>lines[k]\<close>: \<open>undefined\<close> outside the array.\<close>
  "lineAt lines k = (if 0 \<le> k \<and> k < int (length lines) then Some (lines ! nat k) else None)"

fun join :: "string list \<Rightarrow> string" where
  \<comment> \<open>\<open>descr.join('\n')\<close>\<close>
  "join [] = []"
| "join [x] = x"
| "join (x # y # ys) = x @ [CHR 0x0A] @ join (y # ys)"

subsection \<open>getSingleDescription\<close>

datatype error = UndefinedLine int
  \<comment> \<open>\<open>ListFile.getMainLine\<close> was called with \<open>lines[k]\<close> being \<open>undefined\<close>\<close>

text \<open>
  The first loop of \<open>getSingleDescription\<close> (lines 85 to 97). The argument \<open>k\<close> is the
  value of the variable at the head of the loop body. The result is \<^const>\<open>None\<close> where
  the source returns \<open>undefined\<close>, and \<open>Some k\<close> where it leaves the loop by \<open>break\<close>.
\<close>

function skipEmptyLines :: "int \<Rightarrow> string list \<Rightarrow> int \<Rightarrow> int option" where
  "skipEmptyLines lineNumber lines k =
     (let k' = k - 1 in
      if k' < 0 then None
      else if \<not> matchesEmpty (toString (lineAt lines k')) then Some k'
      else if lineNumber - k' \<ge> 3 then None
      else skipEmptyLines lineNumber lines k')"
  by pat_completeness auto
termination
  by (relation "measure (\<lambda>(lineNumber, lines, k). nat k)") auto

text \<open>
  The second loop (lines 101 to 110). \<open>descr.unshift(comment)\<close> puts the comment in
  front of the array.
\<close>

function collectComments ::
  "(string \<Rightarrow> string) \<Rightarrow> string list \<Rightarrow> int \<Rightarrow> string list \<Rightarrow> error + string list" where
  "collectComments getMainLine lines k descr =
     (if k \<ge> 0 then
        (case lineAt lines k of
           None \<Rightarrow> Inl (UndefinedLine k)
         | Some raw \<Rightarrow>
             (case matchComment (getMainLine raw) of
                None \<Rightarrow> Inr descr
              | Some comment \<Rightarrow> collectComments getMainLine lines (k - 1) (comment # descr)))
      else Inr descr)"
  by pat_completeness auto
termination
  by (relation "measure (\<lambda>(getMainLine, lines, k, descr). nat (k + 1))") auto

definition getSingleDescription ::
  "(string \<Rightarrow> string) \<Rightarrow> int \<Rightarrow> string list \<Rightarrow> error + string option" where
  "getSingleDescription getMainLine lineNumber lines =
     (case skipEmptyLines lineNumber lines lineNumber of
        None \<Rightarrow> Inr None
      | Some k \<Rightarrow>
          (case collectComments getMainLine lines k [] of
             Inl e \<Rightarrow> Inl e
           | Inr descr \<Rightarrow> Inr (Some (join descr))))"

text \<open>
  The indices \<open>k\<close> at which each loop evaluates \<open>lines[k]\<close>, in the order of the
  reads. Each function follows the control flow of its loop above and records \<open>k\<close> at
  each evaluation of \<open>lines[k]\<close> (lines 90 and 103).
\<close>

function skipEmptyLines_reads :: "int \<Rightarrow> string list \<Rightarrow> int \<Rightarrow> int list" where
  "skipEmptyLines_reads lineNumber lines k =
     (let k' = k - 1 in
      if k' < 0 then []
      else k' #
        (if \<not> matchesEmpty (toString (lineAt lines k')) then []
         else if lineNumber - k' \<ge> 3 then []
         else skipEmptyLines_reads lineNumber lines k'))"
  by pat_completeness auto
termination
  by (relation "measure (\<lambda>(lineNumber, lines, k). nat k)") auto

function collectComments_reads :: "(string \<Rightarrow> string) \<Rightarrow> string list \<Rightarrow> int \<Rightarrow> int list" where
  "collectComments_reads getMainLine lines k =
     (if k \<ge> 0 then
        k #
        (case lineAt lines k of
           None \<Rightarrow> []
         | Some raw \<Rightarrow>
             (case matchComment (getMainLine raw) of
                None \<Rightarrow> []
              | Some comment \<Rightarrow> collectComments_reads getMainLine lines (k - 1)))
      else [])"
  by pat_completeness auto
termination
  by (relation "measure (\<lambda>(getMainLine, lines, k). nat (k + 1))") auto

definition getSingleDescription_reads ::
  "(string \<Rightarrow> string) \<Rightarrow> int \<Rightarrow> string list \<Rightarrow> int list" where
  "getSingleDescription_reads getMainLine lineNumber lines =
     skipEmptyLines_reads lineNumber lines lineNumber @
     (case skipEmptyLines lineNumber lines lineNumber of
        None \<Rightarrow> []
      | Some k \<Rightarrow> collectComments_reads getMainLine lines k)"

subsection \<open>The class HierarchyEntry\<close>

datatype HierarchyEntry =
  HierarchyEntry (lineNumber: int) (elements: "(string \<times> HierarchyEntry) list")
    (description: "string option")

definition newEntry :: HierarchyEntry where
  \<comment> \<open>the constructor (lines 25 to 29)\<close>
  "newEntry = HierarchyEntry (- 1) [] None"

definition indexOf :: "string \<Rightarrow> char \<Rightarrow> int" where
  \<comment> \<open>\<open>label.indexOf(c)\<close>: the first position of \<open>c\<close>, or \<open>-1\<close>\<close>
  "indexOf s c = (if c \<in> set s then int (length (takeWhile (\<lambda>d. d \<noteq> c) s)) else - 1)"

text \<open>\<open>label.substr(0, k)\<close> is \<open>take k label\<close> and \<open>label.substr(k+1)\<close> is \<open>drop (k+1) label\<close>.\<close>

function getEntry :: "HierarchyEntry \<Rightarrow> string \<Rightarrow> HierarchyEntry option" where
  "getEntry this label =
     (let k = indexOf label (CHR 0x2E) in
      if k < 0 then map_of (elements this) label
      else
        let first = take (nat k) label;
            remaining = drop (nat (k + 1)) label
        in case map_of (elements this) first of
             None \<Rightarrow> None
           | Some entry \<Rightarrow> getEntry entry remaining)"
  by pat_completeness auto
termination
  by (relation "measure (\<lambda>(this, label). length label)")
    (auto simp: indexOf_def nat_add_distrib split: if_splits dest: length_pos_if_in_set)

text \<open>
  \<open>setDescriptions\<close> mutates the tree in place; the model returns the tree after the
  call together with the exception that ended it, if any. An exception of
  \<open>getSingleDescription\<close> leaves the description of the current node as it was and
  ends the whole call; the assignments made before it remain.
\<close>

fun setDescriptions ::
    "(string \<Rightarrow> string) \<Rightarrow> string list \<Rightarrow> HierarchyEntry \<Rightarrow> HierarchyEntry \<times> error option"
  and setDescriptions_loop ::
    "(string \<Rightarrow> string) \<Rightarrow> string list \<Rightarrow> (string \<times> HierarchyEntry) list \<Rightarrow>
     (string \<times> HierarchyEntry) list \<times> error option"
where
  "setDescriptions getMainLine lines (HierarchyEntry ln els d) =
     (case getSingleDescription getMainLine ln lines of
        Inl e \<Rightarrow> (HierarchyEntry ln els d, Some e)
      | Inr r \<Rightarrow>
          (case setDescriptions_loop getMainLine lines els of
             (els', err) \<Rightarrow> (HierarchyEntry ln els' r, err)))"
| "setDescriptions_loop getMainLine lines [] = ([], None)"
| "setDescriptions_loop getMainLine lines ((label, sublabel) # rest) =
     (case setDescriptions getMainLine lines sublabel of
        (sublabel', Some e) \<Rightarrow> ((label, sublabel') # rest, Some e)
      | (sublabel', None) \<Rightarrow>
          (case setDescriptions_loop getMainLine lines rest of
             (rest', err) \<Rightarrow> ((label, sublabel') # rest', err)))"

text \<open>
  \<open>iterate\<close> calls the two handlers for their effects. The handlers of the model act on
  a state \<open>'s\<close> of their own; they cannot change the tree.
\<close>

fun iterate ::
    "(string \<Rightarrow> HierarchyEntry \<Rightarrow> 's \<Rightarrow> 's) \<Rightarrow> (string \<Rightarrow> HierarchyEntry \<Rightarrow> 's \<Rightarrow> 's) \<Rightarrow>
     string \<Rightarrow> HierarchyEntry \<Rightarrow> 's \<Rightarrow> 's"
  and iterate_loop ::
    "(string \<Rightarrow> HierarchyEntry \<Rightarrow> 's \<Rightarrow> 's) \<Rightarrow> (string \<Rightarrow> HierarchyEntry \<Rightarrow> 's \<Rightarrow> 's) \<Rightarrow>
     string \<Rightarrow> (string \<times> HierarchyEntry) list \<Rightarrow> 's \<Rightarrow> 's"
where
  "iterate enterHandler exitHandler prevLabel (HierarchyEntry ln els d) s =
     iterate_loop enterHandler exitHandler prevLabel els s"
| "iterate_loop enterHandler exitHandler prevLabel [] s = s"
| "iterate_loop enterHandler exitHandler prevLabel ((label, entry) # rest) s =
     (let totalLabel = (if length prevLabel > 0 then prevLabel @ [CHR 0x2E] @ label else label);
          s1 = enterHandler totalLabel entry s;
          s2 = iterate enterHandler exitHandler totalLabel entry s1;
          s3 = exitHandler totalLabel entry s2
      in iterate_loop enterHandler exitHandler prevLabel rest s3)"

text \<open>
  The calls of the handlers, recorded: \<open>iterate\<close> run with an \<open>enterHandler\<close> and an
  \<open>exitHandler\<close> that append their arguments to a list.
\<close>

datatype event = Enter string HierarchyEntry | Exit string HierarchyEntry

definition recordedFrom :: "string \<Rightarrow> HierarchyEntry \<Rightarrow> event list" where
  "recordedFrom prevLabel this =
     iterate (\<lambda>label entry s. s @ [Enter label entry]) (\<lambda>label entry s. s @ [Exit label entry])
       prevLabel this []"

definition recorded :: "HierarchyEntry \<Rightarrow> event list" where
  \<comment> \<open>the call \<open>root.iterate(enterHandler, exitHandler)\<close>, with the default \<open>prevLabel = ''\<close>\<close>
  "recorded this = recordedFrom [] this"

fun applyEvent ::
  "(string \<Rightarrow> HierarchyEntry \<Rightarrow> 's \<Rightarrow> 's) \<Rightarrow> (string \<Rightarrow> HierarchyEntry \<Rightarrow> 's \<Rightarrow> 's) \<Rightarrow>
   event \<Rightarrow> 's \<Rightarrow> 's" where
  "applyEvent enterHandler exitHandler (Enter label entry) s = enterHandler label entry s"
| "applyEvent enterHandler exitHandler (Exit label entry) s = exitHandler label entry s"

text \<open>
  The calls of the handlers as a list of its own, by the recursion of \<open>iterate\<close>:
  the enter call, the calls for the children of the entry, the exit call, then the
  remaining entries of the map.
\<close>

definition totalLabel :: "string \<Rightarrow> string \<Rightarrow> string" where
  "totalLabel prevLabel label =
     (if length prevLabel > 0 then prevLabel @ [CHR 0x2E] @ label else label)"

fun events :: "string \<Rightarrow> HierarchyEntry \<Rightarrow> event list"
  and events_loop :: "string \<Rightarrow> (string \<times> HierarchyEntry) list \<Rightarrow> event list"
where
  "events prevLabel (HierarchyEntry ln els d) = events_loop prevLabel els"
| "events_loop prevLabel [] = []"
| "events_loop prevLabel ((label, entry) # rest) =
     Enter (totalLabel prevLabel label) entry # events (totalLabel prevLabel label) entry @
     Exit (totalLabel prevLabel label) entry # events_loop prevLabel rest"

subsection \<open>Insertion of label paths\<close>

text \<open>
  Modelled from the spec: the insertion of a dotted label path with its line number
  (section 4.1, "Insertion"); the code that builds the tree is not part of the sources at
  hand. Nodes are walked or created segment by segment from the root; a segment that
  does not exist yet is created with the sentinel line number and no children, behind the
  existing children of its parent; the node of the last segment gets the line number.
\<close>

fun segments :: "string \<Rightarrow> string list" where
  \<comment> \<open>Modelled from the spec: the segments between the dots of a label path\<close>
  "segments [] = [ [] ]"
| "segments (c # cs) =
     (if c = CHR 0x2E then [] # segments cs
      else (case segments cs of [] \<Rightarrow> [ [c] ] | seg # segs \<Rightarrow> (c # seg) # segs))"

fun insertPath :: "string list \<Rightarrow> int \<Rightarrow> HierarchyEntry \<Rightarrow> HierarchyEntry" where
  \<comment> \<open>Modelled from the spec: the walk that creates the missing nodes, segment by segment,
      and sets the line number of the last one; \<open>AList.update\<close> keeps the place of a key
      that exists and puts a new key behind the others, as \<open>Map.set\<close> does\<close>
  "insertPath [] ln this = HierarchyEntry ln (elements this) (description this)"
| "insertPath (seg # rest) ln this =
     (let sub = (case map_of (elements this) seg of None \<Rightarrow> newEntry | Some entry \<Rightarrow> entry)
      in HierarchyEntry (lineNumber this)
           (AList.update seg (insertPath rest ln sub) (elements this)) (description this))"

definition insertLabel :: "string \<Rightarrow> int \<Rightarrow> HierarchyEntry \<Rightarrow> HierarchyEntry" where
  \<comment> \<open>Modelled from the spec: the insertion of one dotted label path\<close>
  "insertLabel label ln root = insertPath (segments label) ln root"

definition buildTree :: "(string \<times> int) list \<Rightarrow> HierarchyEntry" where
  \<comment> \<open>Modelled from the spec: the tree of an ordered list of label paths with their line
      numbers, inserted in this order into an empty root\<close>
  "buildTree labels = foldl (\<lambda>root (label, ln). insertLabel label ln root) newEntry labels"

subsection \<open>Notions used in the statements\<close>

definition isEmptyLine :: "string list \<Rightarrow> int \<Rightarrow> bool" where
  \<comment> \<open>line \<open>i\<close> exists and is blank\<close>
  "isEmptyLine lines i = (case lineAt lines i of None \<Rightarrow> False | Some l \<Rightarrow> matchesEmpty l)"

definition commentAt :: "(string \<Rightarrow> string) \<Rightarrow> string list \<Rightarrow> int \<Rightarrow> string option" where
  \<comment> \<open>the text behind the semicolon when the logical text of line \<open>i\<close> is a comment\<close>
  "commentAt getMainLine lines i =
     (case lineAt lines i of None \<Rightarrow> None | Some l \<Rightarrow> matchComment (getMainLine l))"

definition scanFails :: "string list \<Rightarrow> int \<Rightarrow> bool" where
  \<comment> \<open>no line to start from: the label is on the first line or has no line, or only blank
      lines lie above it, or the three lines above it are blank\<close>
  "scanFails lines n \<longleftrightarrow>
     n \<le> 0 \<or>
     (isEmptyLine lines (n - 1) \<and>
      (n = 1 \<or> (isEmptyLine lines (n - 2) \<and> (n = 2 \<or> isEmptyLine lines (n - 3)))))"

text \<open>
  The nodes below the root with the list of keys that leads to each, parents before
  children and children in the order of the map; and the same nodes, children before
  parents.
\<close>

fun subNodes :: "HierarchyEntry \<Rightarrow> (string list \<times> HierarchyEntry) list"
  and subNodes_list :: "(string \<times> HierarchyEntry) list \<Rightarrow> (string list \<times> HierarchyEntry) list"
where
  "subNodes (HierarchyEntry ln els d) = subNodes_list els"
| "subNodes_list [] = []"
| "subNodes_list ((key, sub) # rest) =
     ([key], sub) # map (\<lambda>(path, node). (key # path, node)) (subNodes sub) @ subNodes_list rest"

fun subNodesPost :: "HierarchyEntry \<Rightarrow> (string list \<times> HierarchyEntry) list"
  and subNodesPost_list :: "(string \<times> HierarchyEntry) list \<Rightarrow> (string list \<times> HierarchyEntry) list"
where
  "subNodesPost (HierarchyEntry ln els d) = subNodesPost_list els"
| "subNodesPost_list [] = []"
| "subNodesPost_list ((key, sub) # rest) =
     map (\<lambda>(path, node). (key # path, node)) (subNodesPost sub) @ ([key], sub) #
     subNodesPost_list rest"

fun nodeAt :: "HierarchyEntry \<Rightarrow> string list \<Rightarrow> HierarchyEntry option" where
  \<comment> \<open>the node reached from a node by a list of keys\<close>
  "nodeAt this [] = Some this"
| "nodeAt this (seg # rest) =
     (case map_of (elements this) seg of None \<Rightarrow> None | Some entry \<Rightarrow> nodeAt entry rest)"

definition allNodes :: "HierarchyEntry \<Rightarrow> HierarchyEntry list" where
  "allNodes root = root # map snd (subNodes root)"

fun fullLabel :: "string list \<Rightarrow> string" where
  \<comment> \<open>the keys of a path joined with dots\<close>
  "fullLabel [] = []"
| "fullLabel [seg] = seg"
| "fullLabel (seg # rest) = seg @ [CHR 0x2E] @ fullLabel rest"

fun wellFormed :: "HierarchyEntry \<Rightarrow> bool"
  and wellFormed_list :: "(string \<times> HierarchyEntry) list \<Rightarrow> bool"
where
  \<comment> \<open>the keys of a map are distinct, not empty and without a dot\<close>
  "wellFormed (HierarchyEntry ln els d) \<longleftrightarrow> distinct (map fst els) \<and> wellFormed_list els"
| "wellFormed_list [] \<longleftrightarrow> True"
| "wellFormed_list ((key, sub) # rest) \<longleftrightarrow>
     key \<noteq> [] \<and> CHR 0x2E \<notin> set key \<and> wellFormed sub \<and> wellFormed_list rest"

fun enters :: "event list \<Rightarrow> (string \<times> HierarchyEntry) list" where
  "enters [] = []"
| "enters (Enter label entry # evs) = (label, entry) # enters evs"
| "enters (Exit label entry # evs) = enters evs"

fun exits :: "event list \<Rightarrow> (string \<times> HierarchyEntry) list" where
  "exits [] = []"
| "exits (Enter label entry # evs) = exits evs"
| "exits (Exit label entry # evs) = (label, entry) # exits evs"

fun paired :: "(string \<times> HierarchyEntry) list \<Rightarrow> event list \<Rightarrow> bool" where
  \<comment> \<open>every exit closes the latest enter still pending, with its label and node; nothing
      stays pending\<close>
  "paired pending [] \<longleftrightarrow> pending = []"
| "paired pending (Enter label entry # evs) \<longleftrightarrow> paired ((label, entry) # pending) evs"
| "paired pending (Exit label entry # evs) \<longleftrightarrow>
     (case pending of [] \<Rightarrow> False | p # outer \<Rightarrow> p = (label, entry) \<and> paired outer evs)"

fun eraseDescriptions :: "HierarchyEntry \<Rightarrow> HierarchyEntry"
  and eraseDescriptions_list :: "(string \<times> HierarchyEntry) list \<Rightarrow> (string \<times> HierarchyEntry) list"
where
  \<comment> \<open>the tree without its descriptions: line numbers, keys, children and their order\<close>
  "eraseDescriptions (HierarchyEntry ln els d) = HierarchyEntry ln (eraseDescriptions_list els) None"
| "eraseDescriptions_list [] = []"
| "eraseDescriptions_list ((key, sub) # rest) =
     (key, eraseDescriptions sub) # eraseDescriptions_list rest"

definition exampleTree :: HierarchyEntry where
  \<comment> \<open>the tree of the paths \<open>a.b.c\<close>, \<open>a.b.d\<close> and \<open>a.e\<close> at the lines 10, 20 and 30\<close>
  "exampleTree =
     HierarchyEntry (- 1)
       [(''a'', HierarchyEntry (- 1)
           [(''b'', HierarchyEntry (- 1)
               [(''c'', HierarchyEntry 10 [] None), (''d'', HierarchyEntry 20 [] None)] None),
            (''e'', HierarchyEntry 30 [] None)] None)] None"

section \<open>Properties\<close>

subsection \<open>The first and the second loop of getSingleDescription\<close>

lemmas eval_defs = isEmptyLine_def commentAt_def lineAt_def matchesEmpty_def isWhiteSpace_def
  matchComment_def isLineTerminator_def

declare skipEmptyLines.simps [simp del] collectComments.simps [simp del]

lemma toString_lineAt_empty:
  "matchesEmpty (toString (lineAt lines i)) \<longleftrightarrow> isEmptyLine lines i"
  by (simp add: isEmptyLine_def toString_def matchesEmpty_def isWhiteSpace_def split: option.split)

lemma skip_start: "k \<le> 0 \<Longrightarrow> skipEmptyLines n lines k = None"
  by (simp add: skipEmptyLines.simps)

lemma skip_found:
  "0 < k \<Longrightarrow> \<not> isEmptyLine lines (k - 1) \<Longrightarrow> skipEmptyLines n lines k = Some (k - 1)"
  by (simp add: skipEmptyLines.simps [of n lines k] toString_lineAt_empty)

lemma skip_limit:
  "0 < k \<Longrightarrow> isEmptyLine lines (k - 1) \<Longrightarrow> k + 2 \<le> n \<Longrightarrow> skipEmptyLines n lines k = None"
  by (simp add: skipEmptyLines.simps [of n lines k] toString_lineAt_empty)

lemma skip_next:
  "0 < k \<Longrightarrow> isEmptyLine lines (k - 1) \<Longrightarrow> n < k + 2 \<Longrightarrow>
   skipEmptyLines n lines k = skipEmptyLines n lines (k - 1)"
  by (simp add: skipEmptyLines.simps [of n lines k] toString_lineAt_empty)

lemma isEmptyLine_bounds: "isEmptyLine lines i \<Longrightarrow> 0 \<le> i \<and> i < int (length lines)"
  by (simp add: isEmptyLine_def lineAt_def split: if_splits)

lemma commentAt_bounds: "commentAt g lines i = Some c \<Longrightarrow> 0 \<le> i \<and> i < int (length lines)"
  by (simp add: commentAt_def lineAt_def split: if_splits)

lemma collect_stop:
  "k < int (length lines) \<Longrightarrow> commentAt g lines k = None \<Longrightarrow> collectComments g lines k descr = Inr descr"
  by (subst collectComments.simps) (auto simp: commentAt_def lineAt_def split: option.splits if_splits)

lemma collect_step:
  "commentAt g lines k = Some c \<Longrightarrow>
   collectComments g lines k descr = collectComments g lines (k - 1) (c # descr)"
  by (subst collectComments.simps) (auto simp: commentAt_def lineAt_def split: option.splits if_splits)

lemma collectComments_acc:
  "k < int (length lines) \<Longrightarrow> \<exists>pre. collectComments g lines k descr = Inr (pre @ descr)"
proof (induction g lines k descr rule: collectComments.induct)
  case (1 g lines k descr)
  show ?case
  proof (cases "commentAt g lines k")
    case None
    with 1(2) show ?thesis by (simp add: collect_stop)
  next
    case (Some c)
    then obtain raw where raw: "lineAt lines k = Some raw" "matchComment (g raw) = Some c" "0 \<le> k"
      by (auto simp: commentAt_def lineAt_def split: option.splits if_splits)
    from 1(1)[OF raw(3) raw(1) raw(2)] 1(2) obtain pre
      where "collectComments g lines (k - 1) (c # descr) = Inr (pre @ c # descr)" by auto
    with Some show ?thesis by (simp add: collect_step)
  qed
qed

lemma skip_two_empty:
  assumes "isEmptyLine lines (n - 1)" "isEmptyLine lines (n - 2)"
  shows "skipEmptyLines n lines n = skipEmptyLines n lines (n - 2)" and "2 \<le> n"
proof -
  from isEmptyLine_bounds [OF assms(2)] show n2: "2 \<le> n" by simp
  have "skipEmptyLines n lines n = skipEmptyLines n lines (n - 1)"
    using assms(1) n2 by (simp add: skip_next)
  also have "\<dots> = skipEmptyLines n lines (n - 1 - 1)"
    using assms(2) n2 by (intro skip_next) simp_all
  finally show "skipEmptyLines n lines n = skipEmptyLines n lines (n - 2)" by simp
qed

text \<open>
  Claim C1. A label at line \<open>n\<close> with blank lines at \<open>n - 1\<close> and \<open>n - 2\<close>: when line
  \<open>n - 3\<close> is blank too, the result is absence; when line \<open>n - 3\<close> is not blank and its
  logical text is a comment, the description is found and its last line is the text of
  that comment, and it is exactly that text when no comment line lies above it. The
  blank test of the first loop reads the raw line, the comment test the logical text.
\<close>

theorem blank_line_tolerance:
  assumes "isEmptyLine lines (n - 1)" and "isEmptyLine lines (n - 2)"
  shows "(isEmptyLine lines (n - 3) \<longrightarrow> getSingleDescription g n lines = Inr None) \<and>
         (\<not> isEmptyLine lines (n - 3) \<and> commentAt g lines (n - 3) = Some c \<longrightarrow>
            (\<exists>above. getSingleDescription g n lines = Inr (Some (join (above @ [c])))) \<and>
            (commentAt g lines (n - 4) = None \<longrightarrow> getSingleDescription g n lines = Inr (Some c)))"
proof (intro conjI impI)
  note two = skip_two_empty [OF assms]
  {
    assume e3: "isEmptyLine lines (n - 3)"
    from isEmptyLine_bounds [OF e3] have "skipEmptyLines n lines (n - 2) = None"
      using e3 by (intro skip_limit) simp_all
    with two show "getSingleDescription g n lines = Inr None"
      by (simp add: getSingleDescription_def)
  }
  assume c3: "\<not> isEmptyLine lines (n - 3) \<and> commentAt g lines (n - 3) = Some c"
  from c3 commentAt_bounds have n3: "3 \<le> n" "n - 3 < int (length lines)" by fastforce+
  have "skipEmptyLines n lines (n - 2) = Some (n - 2 - 1)"
    using c3 n3 by (intro skip_found) simp_all
  with two have sk: "skipEmptyLines n lines n = Some (n - 3)" by simp
  have st: "collectComments g lines (n - 3) [] = collectComments g lines (n - 4) [c]"
    using c3 collect_step [of g lines "n - 3" c "[]"] by simp
  from n3 collectComments_acc [of "n - 4" lines g "[c]"] obtain above
    where ab: "collectComments g lines (n - 4) [c] = Inr (above @ [c])" by auto
  from sk st ab show "\<exists>above. getSingleDescription g n lines = Inr (Some (join (above @ [c])))"
    by (auto simp: getSingleDescription_def)
  assume "commentAt g lines (n - 4) = None"
  with n3 have "collectComments g lines (n - 4) [c] = Inr [c]"
    by (intro collect_stop) simp_all
  with sk st show "getSingleDescription g n lines = Inr (Some c)"
    by (simp add: getSingleDescription_def)
qed



theorem blank_line_tolerance_witness:
  "getSingleDescription id 3 [''; Prints a text'', ''  '', [], ''print:''] = Inr (Some '' Prints a text'')
   \<and> getSingleDescription id 3 [ [], ''  '', [], ''print:''] = Inr None"
proof -
  let ?L = "[''; Prints a text'', ''  '', [], ''print:'']"
  let ?M = "[ [], ''  '', [], ''print:'']"
  have h: "isEmptyLine ?L (3 - 1)" "isEmptyLine ?L (3 - 2)" "\<not> isEmptyLine ?L (3 - 3)"
    "commentAt id ?L (3 - 3) = Some '' Prints a text''" "commentAt id ?L (3 - 4) = None"
    by (simp_all add: eval_defs)
  have m: "isEmptyLine ?M (3 - 1)" "isEmptyLine ?M (3 - 2)" "isEmptyLine ?M (3 - 3)"
    by (simp_all add: eval_defs)
  from blank_line_tolerance [OF h(1,2), of id "'' Prints a text''"] h(3,4,5)
    blank_line_tolerance [OF m(1,2), of id] m(3)
  show ?thesis by simp
qed

lemma matchComment_not_empty: "matchComment l = Some c \<Longrightarrow> \<not> matchesEmpty l"
proof
  assume a: "matchComment l = Some c" and "matchesEmpty l"
  then have "dropWhile isWhiteSpace l = []"
    by (simp add: matchesEmpty_def list_all_iff)
  with a show False by (simp add: matchComment_def)
qed

text \<open>
  Claim C5. When the scan upwards from a line \<open>n\<close> reaches, after fewer than three blank
  lines, a line that is not blank and whose logical text is no comment, the result is the
  empty string, which is not the absence value.
\<close>

theorem empty_string_not_absence:
  assumes "1 \<le> j" and "j \<le> 3"
    and "\<forall>i. 1 \<le> i \<and> i < j \<longrightarrow> isEmptyLine lines (n - i)"
    and "lineAt lines (n - j) = Some l" and "\<not> matchesEmpty l"
    and "matchComment (g l) = None"
  shows "getSingleDescription g n lines = Inr (Some []) \<and>
         getSingleDescription g n lines \<noteq> Inr None"
proof -
  from assms(4) have b: "0 \<le> n - j" "n - j < int (length lines)"
    by (simp_all add: lineAt_def split: if_splits)
  from assms(4,5) have ne: "\<not> isEmptyLine lines (n - j)" by (simp add: isEmptyLine_def)
  from assms(4,6) have nc: "commentAt g lines (n - j) = None" by (simp add: commentAt_def)
  have found: "skipEmptyLines n lines (n - j + 1) = Some (n - j)"
    using skip_found [of "n - j + 1" lines n] ne b by simp
  have step: "skipEmptyLines n lines (n - i + 1) = skipEmptyLines n lines (n - i)"
    if "1 \<le> i" "i < j" for i
    using skip_next [of "n - i + 1" lines n] that assms(2,3) b by simp
  from assms(1,2) have "j = 1 \<or> j = 2 \<or> j = 3" by arith
  then have "skipEmptyLines n lines n = Some (n - j)"
  proof (elim disjE)
    assume "j = 1" with found show ?thesis by simp
  next
    assume "j = 2" with found step [of 1] show ?thesis by simp
  next
    assume "j = 3" with found step [of 1] step [of 2] show ?thesis by simp
  qed
  moreover from b(2) nc have "collectComments g lines (n - j) [] = Inr []"
    by (rule collect_stop)
  ultimately show ?thesis by (simp add: getSingleDescription_def)
qed

theorem empty_string_not_absence_witness:
  "getSingleDescription id 2 [''  ret'', [], ''start:''] = Inr (Some [])"
proof -
  let ?L = "[''  ret'', [], ''start:'']"
  have a: "lineAt ?L (2 - 2) = Some ''  ret''" "\<not> matchesEmpty ''  ret''"
    "matchComment (id ''  ret'') = None"
    by (simp_all add: eval_defs)
  have b: "\<forall>i. 1 \<le> i \<and> i < (2::int) \<longrightarrow> isEmptyLine ?L (2 - i)"
  proof (intro allI impI)
    fix i :: int
    assume "1 \<le> i \<and> i < 2"
    then have "i = 1" by arith
    then show "isEmptyLine ?L (2 - i)" by (simp add: eval_defs)
  qed
  have j: "(1::int) \<le> 2" "(2::int) \<le> 3" by simp_all
  from empty_string_not_absence [of 2 ?L 2 "''  ret''" id, OF j b a] show ?thesis by simp
qed

lemma skipEmptyLines_None_iff: "skipEmptyLines n lines n = None \<longleftrightarrow> scanFails lines n"
proof (cases "0 < n")
  case False
  then show ?thesis by (simp add: skip_start scanFails_def)
next
  case n0: True
  show ?thesis
  proof (cases "isEmptyLine lines (n - 1)")
    case False
    with n0 show ?thesis by (simp add: skip_found scanFails_def)
  next
    case e1: True
    with n0 have s1: "skipEmptyLines n lines n = skipEmptyLines n lines (n - 1)"
      by (simp add: skip_next)
    show ?thesis
    proof (cases "n = 1")
      case True
      with s1 e1 show ?thesis by (simp add: skip_start scanFails_def)
    next
      case n1: False
      show ?thesis
      proof (cases "isEmptyLine lines (n - 2)")
        case False
        with n0 n1 skip_found [of "n - 1" lines n] s1 e1 show ?thesis
          by (simp add: scanFails_def)
      next
        case e2: True
        with n0 n1 skip_next [of "n - 1" lines n]
        have s2: "skipEmptyLines n lines (n - 1) = skipEmptyLines n lines (n - 2)" by simp
        show ?thesis
        proof (cases "n = 2")
          case True
          with s1 s2 e1 e2 show ?thesis by (simp add: skip_start scanFails_def)
        next
          case n2: False
          show ?thesis
          proof (cases "isEmptyLine lines (n - 3)")
            case False
            with n0 n1 n2 skip_found [of "n - 2" lines n] s1 s2 e1 e2 show ?thesis
              by (simp add: scanFails_def)
          next
            case True
            with n0 n1 n2 skip_limit [of "n - 2" lines n] s1 s2 e1 e2 show ?thesis
              by (simp add: scanFails_def)
          qed
        qed
      qed
    qed
  qed
qed

lemma getSingleDescription_scanFails:
  "scanFails lines n \<Longrightarrow> getSingleDescription g n lines = Inr None"
  using skipEmptyLines_None_iff [of n lines] by (simp add: getSingleDescription_def)

text \<open>
  Claim C6. \<open>getSingleDescription\<close> returns absence, and neither the empty string nor an
  exception, when the line number is negative (the sentinel \<open>-1\<close> among them), when
  every line above the label is blank so that the scan runs past the start of the lines,
  and when the three lines above the label are blank.
\<close>

theorem absence_conditions:
  "(n < 0 \<longrightarrow> getSingleDescription g n lines = Inr None) \<and>
   ((\<forall>i. 0 \<le> i \<and> i < n \<longrightarrow> isEmptyLine lines i) \<longrightarrow> getSingleDescription g n lines = Inr None) \<and>
   (isEmptyLine lines (n - 1) \<and> isEmptyLine lines (n - 2) \<and> isEmptyLine lines (n - 3) \<longrightarrow>
      getSingleDescription g n lines = Inr None) \<and>
   (getSingleDescription g n lines = Inr None \<longrightarrow>
      getSingleDescription g n lines \<noteq> Inr (Some []) \<and>
      (\<forall>e. getSingleDescription g n lines \<noteq> Inl e))"
proof (intro conjI impI)
  assume "n < 0"
  then show "getSingleDescription g n lines = Inr None"
    by (simp add: getSingleDescription_scanFails scanFails_def)
next
  assume a: "\<forall>i. 0 \<le> i \<and> i < n \<longrightarrow> isEmptyLine lines i"
  have "scanFails lines n"
  proof (cases "n \<le> 0")
    case True then show ?thesis by (simp add: scanFails_def)
  next
    case False
    with a have "isEmptyLine lines (n - 1)" by simp
    moreover from a False have "n = 1 \<or> isEmptyLine lines (n - 2)" by (cases "n = 1") simp_all
    moreover from a False have "n = 1 \<or> n = 2 \<or> isEmptyLine lines (n - 3)"
      by (cases "n = 1"; cases "n = 2") simp_all
    ultimately show ?thesis by (auto simp: scanFails_def)
  qed
  then show "getSingleDescription g n lines = Inr None" by (rule getSingleDescription_scanFails)
next
  assume "isEmptyLine lines (n - 1) \<and> isEmptyLine lines (n - 2) \<and> isEmptyLine lines (n - 3)"
  then show "getSingleDescription g n lines = Inr None"
    by (simp add: getSingleDescription_scanFails scanFails_def)
qed simp_all

theorem absence_conditions_witness:
  "getSingleDescription id (- 1) [''; text'', ''start:''] = Inr None \<and>
   getSingleDescription id 2 [''  '', [], ''start:''] = Inr None \<and>
   getSingleDescription id 4 [''; text'', [], [], [], ''start:''] = Inr None"
proof -
  let ?L = "[''  '', [], ''start:'']"
  let ?M = "[''; text'', [], [], [], ''start:'']"
  have b: "\<forall>i. 0 \<le> i \<and> i < (2::int) \<longrightarrow> isEmptyLine ?L i"
  proof (intro allI impI)
    fix i :: int
    assume "0 \<le> i \<and> i < 2"
    then have "i = 0 \<or> i = 1" by arith
    then show "isEmptyLine ?L i" by (auto simp: eval_defs)
  qed
  have c: "isEmptyLine ?M (4 - 1) \<and> isEmptyLine ?M (4 - 2) \<and> isEmptyLine ?M (4 - 3)"
    by (simp add: eval_defs)
  have a: "(- 1 :: int) < 0" by simp
  from absence_conditions [of "- 1" id "[''; text'', ''start:'']"] a
    absence_conditions [of 2 id ?L] b absence_conditions [of 4 id ?M] c
  show ?thesis by simp
qed




declare skipEmptyLines_reads.simps [simp del] collectComments_reads.simps [simp del]

lemma skip_reads_bounds:
  "j \<in> set (skipEmptyLines_reads n lines k) \<Longrightarrow> 0 \<le> j \<and> j < k"
proof (induction n lines k rule: skipEmptyLines_reads.induct)
  case (1 n lines k)
  show ?case
  proof (cases "k - 1 < 0")
    case True
    with 1(2) show ?thesis by (simp add: skipEmptyLines_reads.simps [of n lines k])
  next
    case False
    show ?thesis
    proof (cases "matchesEmpty (toString (lineAt lines (k - 1))) \<and> \<not> 3 \<le> n - (k - 1)")
      case True
      with False 1(2) have "j = k - 1 \<or> j \<in> set (skipEmptyLines_reads n lines (k - 1))"
        by (simp add: skipEmptyLines_reads.simps [of n lines k] Let_def)
      then show ?thesis
      proof
        assume "j = k - 1" with False show ?thesis by simp
      next
        assume "j \<in> set (skipEmptyLines_reads n lines (k - 1))"
        with 1(1) [of "k - 1"] False True have "0 \<le> j \<and> j < k - 1" by simp
        then show ?thesis by simp
      qed
    next
      case stop: False
      with False 1(2) have "j = k - 1"
        by (auto simp: skipEmptyLines_reads.simps [of n lines k] Let_def split: if_splits)
      with False show ?thesis by simp
    qed
  qed
qed

lemma skip_result_bounds:
  "skipEmptyLines n lines k = Some j \<Longrightarrow> 0 \<le> j \<and> j < k"
proof (induction n lines k rule: skipEmptyLines.induct)
  case (1 n lines k)
  show ?case
  proof (cases "k - 1 < 0")
    case True
    with 1(2) show ?thesis by (simp add: skipEmptyLines.simps [of n lines k])
  next
    case False
    show ?thesis
    proof (cases "matchesEmpty (toString (lineAt lines (k - 1))) \<and> \<not> 3 \<le> n - (k - 1)")
      case True
      with False 1(2) have "skipEmptyLines n lines (k - 1) = Some j"
        by (simp add: skipEmptyLines.simps [of n lines k] Let_def)
      with 1(1) [of "k - 1"] False True have "0 \<le> j \<and> j < k - 1" by simp
      then show ?thesis by simp
    next
      case stop: False
      with False 1(2) have "j = k - 1"
        by (auto simp: skipEmptyLines.simps [of n lines k] Let_def split: if_splits)
      with False show ?thesis by simp
    qed
  qed
qed

lemma collect_reads_bounds:
  "j \<in> set (collectComments_reads g lines k) \<Longrightarrow> 0 \<le> j \<and> j \<le> k"
proof (induction g lines k rule: collectComments_reads.induct)
  case (1 g lines k)
  show ?case
  proof (cases "k \<ge> 0")
    case False
    with 1(2) show ?thesis by (simp add: collectComments_reads.simps [of g lines k])
  next
    case True
    show ?thesis
    proof (cases "commentAt g lines k")
      case None
      with True 1(2) have "j = k"
        by (auto simp: collectComments_reads.simps [of g lines k] commentAt_def
            split: option.splits)
      with True show ?thesis by simp
    next
      case (Some c)
      then obtain raw where raw: "lineAt lines k = Some raw" "matchComment (g raw) = Some c"
        by (auto simp: commentAt_def split: option.splits)
      with True 1(2) have "j = k \<or> j \<in> set (collectComments_reads g lines (k - 1))"
        by (simp add: collectComments_reads.simps [of g lines k])
      then show ?thesis
      proof
        assume "j = k" with True show ?thesis by simp
      next
        assume "j \<in> set (collectComments_reads g lines (k - 1))"
        with 1(1) [OF True raw] have "0 \<le> j \<and> j \<le> k - 1" by simp
        then show ?thesis by simp
      qed
    qed
  qed
qed

lemma collect_no_error:
  "k < int (length lines) \<Longrightarrow> collectComments g lines k descr \<noteq> Inl e"
  using collectComments_acc [of k lines g descr] by auto

text \<open>
  Claim C10. For a line number \<open>n\<close> with \<open>0 \<le> n \<le> length lines\<close>, every index at which
  \<open>getSingleDescription\<close> evaluates \<open>lines[k]\<close> lies between \<open>0\<close> and \<open>n - 1\<close> and
  is an index of the array, and the call ends without the error of an undefined line.
\<close>

theorem reads_in_bounds:
  assumes "0 \<le> n" and "n \<le> int (length lines)"
  shows "(\<forall>k \<in> set (getSingleDescription_reads g n lines).
            0 \<le> k \<and> k \<le> n - 1 \<and> lineAt lines k \<noteq> None) \<and>
         (\<forall>e. getSingleDescription g n lines \<noteq> Inl e)"
proof -
  have reads: "0 \<le> k \<and> k \<le> n - 1 \<and> lineAt lines k \<noteq> None"
    if "k \<in> set (getSingleDescription_reads g n lines)" for k
  proof -
    from that consider "k \<in> set (skipEmptyLines_reads n lines n)"
      | j where "skipEmptyLines n lines n = Some j" "k \<in> set (collectComments_reads g lines j)"
      by (cases "skipEmptyLines n lines n") (auto simp: getSingleDescription_reads_def)
    then have "0 \<le> k \<and> k < n"
    proof cases
      case 1
      then show ?thesis by (rule skip_reads_bounds)
    next
      case 2
      from skip_result_bounds [OF 2(1)] collect_reads_bounds [OF 2(2)] show ?thesis by simp
    qed
    with assms show ?thesis by (simp add: lineAt_def)
  qed
  have no_error: "getSingleDescription g n lines \<noteq> Inl e" for e
  proof (cases "skipEmptyLines n lines n")
    case None
    then show ?thesis by (simp add: getSingleDescription_def)
  next
    case (Some j)
    with skip_result_bounds assms have "j < int (length lines)" by fastforce
    from collect_no_error [OF this] Some show ?thesis
      by (auto simp: getSingleDescription_def split: sum.splits)
  qed
  from reads no_error show ?thesis by blast
qed

theorem reads_in_bounds_witness:
  "getSingleDescription_reads id 3 [''  ret'', ''; Prints a text.'', [], ''print:''] = [2, 1, 1, 0] \<and>
   lineAt [''  ret'', ''; Prints a text.'', [], ''print:''] 2 \<noteq> None \<and>
   lineAt [''  ret'', ''; Prints a text.'', [], ''print:''] 0 \<noteq> None \<and>
   getSingleDescription id 3 [''  ret'', ''; Prints a text.'', [], ''print:''] \<noteq> Inl (UndefinedLine 0)"
proof -
  let ?L = "[''  ret'', ''; Prints a text.'', [], ''print:'']"
  have a: "(0::int) \<le> 3" "(3::int) \<le> int (length ?L)" by simp_all
  have r: "getSingleDescription_reads id 3 ?L = [2, 1, 1, 0]" by code_simp
  from reads_in_bounds [OF a, of id] have
    b: "\<forall>k \<in> set (getSingleDescription_reads id 3 ?L). 0 \<le> k \<and> k \<le> 3 - 1 \<and> lineAt ?L k \<noteq> None"
    and e: "getSingleDescription id 3 ?L \<noteq> Inl (UndefinedLine 0)" by blast+
  from b r have "lineAt ?L 2 \<noteq> None" "lineAt ?L 0 \<noteq> None" by simp_all
  with r e show ?thesis by (intro conjI)
qed

subsection \<open>setDescriptions\<close>

lemma setDescriptions_twice:
  "setDescriptions g lines (fst (setDescriptions g lines t)) = setDescriptions g lines t"
  "setDescriptions_loop g lines (fst (setDescriptions_loop g lines els)) =
     setDescriptions_loop g lines els"
  by (induction g lines t and g lines els rule: setDescriptions_setDescriptions_loop.induct)
    (auto split: sum.splits prod.splits option.splits)

lemma setDescriptions_erase:
  "eraseDescriptions (fst (setDescriptions g lines t)) = eraseDescriptions t"
  "eraseDescriptions_list (fst (setDescriptions_loop g lines els)) = eraseDescriptions_list els"
  by (induction g lines t and g lines els rule: setDescriptions_setDescriptions_loop.induct)
    (auto split: sum.splits prod.splits option.splits)

lemma getSingleDescription_None_iff:
  "getSingleDescription g n lines = Inr None \<longleftrightarrow> scanFails lines n"
  using skipEmptyLines_None_iff [of n lines]
  by (auto simp: getSingleDescription_def split: option.splits sum.splits)

lemma setDescriptions_nodes:
  "setDescriptions g lines t = (t', None) \<Longrightarrow> n \<in> set (allNodes t') \<Longrightarrow>
     getSingleDescription g (lineNumber n) lines = Inr (description n)"
  "setDescriptions_loop g lines els = (els', None) \<Longrightarrow> n \<in> snd ` set (subNodes_list els') \<Longrightarrow>
     getSingleDescription g (lineNumber n) lines = Inr (description n)"
proof (induction g lines t and g lines els arbitrary: t' n and els' n
    rule: setDescriptions_setDescriptions_loop.induct)
  case (1 g lines ln els d)
  from 1(2) obtain r els' where
    r: "getSingleDescription g ln lines = Inr r"
    and l: "setDescriptions_loop g lines els = (els', None)"
    and t': "t' = HierarchyEntry ln els' r"
    by (auto split: sum.splits prod.splits)
  from 1(3) t' have "n = t' \<or> n \<in> snd ` set (subNodes_list els')"
    by (force simp: allNodes_def)
  then show ?case
  proof
    assume "n = t'"
    with r t' show ?thesis by simp
  next
    assume "n \<in> snd ` set (subNodes_list els')"
    with 1(1) r l show ?thesis by simp
  qed
next
  case (2 g lines)
  then show ?case by simp
next
  case (3 g lines label sublabel rest)
  from 3(3) obtain sub' rest' where
    s: "setDescriptions g lines sublabel = (sub', None)"
    and r: "setDescriptions_loop g lines rest = (rest', None)"
    and e: "els' = (label, sub') # rest'"
    by (auto split: prod.splits option.splits)
  from 3(4) e have "n \<in> set (allNodes sub') \<or> n \<in> snd ` set (subNodes_list rest')"
    by (cases sub') (force simp: allNodes_def)
  then show ?case
  proof
    assume "n \<in> set (allNodes sub')"
    with 3(1) s show ?thesis by simp
  next
    assume "n \<in> snd ` set (subNodes_list rest')"
    with 3(2) s r show ?thesis by simp
  qed
qed


subsection \<open>iterate\<close>

lemma iterate_events:
  "iterate en ex p t s = fold (applyEvent en ex) (events p t) s"
  "iterate_loop en ex p els s = fold (applyEvent en ex) (events_loop p els) s"
  by (induction en ex p t s and en ex p els s rule: iterate_iterate_loop.induct)
    (simp_all add: totalLabel_def Let_def)

lemma fold_record:
  "fold (applyEvent (\<lambda>label entry s. s @ [Enter label entry])
      (\<lambda>label entry s. s @ [Exit label entry])) evs s = s @ evs"
proof (induction evs arbitrary: s)
  case Nil
  show ?case by simp
next
  case (Cons ev evs)
  then show ?case by (cases ev) simp_all
qed

lemma recordedFrom_events: "recordedFrom p t = events p t"
  by (simp add: recordedFrom_def iterate_events fold_record)

lemma enters_append [simp]: "enters (xs @ ys) = enters xs @ enters ys"
  by (induction xs rule: enters.induct) simp_all

lemma exits_append [simp]: "exits (xs @ ys) = exits xs @ exits ys"
  by (induction xs rule: exits.induct) simp_all

lemma enters_nodes:
  "map snd (enters (events p t)) = map snd (subNodes t)"
  "map snd (enters (events_loop p els)) = map snd (subNodes_list els)"
  by (induction p t and p els rule: events_events_loop.induct) (simp_all add: comp_def case_prod_beta)

lemma exits_nodes:
  "map snd (exits (events p t)) = map snd (subNodesPost t)"
  "map snd (exits (events_loop p els)) = map snd (subNodesPost_list els)"
  by (induction p t and p els rule: events_events_loop.induct) (simp_all add: comp_def case_prod_beta)

lemma paired_events:
  "paired pending (events p t @ evs) = paired pending evs"
  "paired pending (events_loop p els @ evs) = paired pending evs"
  by (induction p t and p els arbitrary: pending evs and pending evs rule: events_events_loop.induct)
    simp_all

lemma subNodes_smaller:
  "n \<in> snd ` set (subNodes t) \<Longrightarrow> size n < size t"
  "n \<in> snd ` set (subNodes_list els) \<Longrightarrow> size n < Suc (size_list (size_prod (\<lambda>_. 0) size) els)"
  by (induction t and els rule: subNodes_subNodes_list.induct) force+


lemma root_not_subNode: "t \<notin> snd ` set (subNodes t)"
  using subNodes_smaller(1) [of t t] by auto

lemma subNodesPost_set:
  "set (subNodesPost t) = set (subNodes t)"
  "set (subNodesPost_list els) = set (subNodes_list els)"
  by (induction t and els rule: subNodesPost_subNodesPost_list.induct) auto

lemma fullLabel_snoc: "q \<noteq> [] \<Longrightarrow> fullLabel (q @ [seg]) = fullLabel q @ [CHR 0x2E] @ seg"
  by (induction q rule: fullLabel.induct) simp_all

lemma fullLabel_nonempty: "seg \<noteq> [] \<Longrightarrow> fullLabel (q @ [seg]) \<noteq> []"
  by (cases "q = []") (simp_all add: fullLabel_snoc)

lemma totalLabel_fullLabel:
  "q = [] \<or> fullLabel q \<noteq> [] \<Longrightarrow> totalLabel (fullLabel q) seg = fullLabel (q @ [seg])"
  by (cases "q = []") (simp_all add: totalLabel_def fullLabel_snoc)

lemma enters_labels:
  "wellFormed t \<Longrightarrow> q = [] \<or> fullLabel q \<noteq> [] \<Longrightarrow>
     enters (events (fullLabel q) t) = map (\<lambda>(path, node). (fullLabel (q @ path), node)) (subNodes t)"
  "wellFormed_list els \<Longrightarrow> q = [] \<or> fullLabel q \<noteq> [] \<Longrightarrow>
     enters (events_loop (fullLabel q) els) =
       map (\<lambda>(path, node). (fullLabel (q @ path), node)) (subNodes_list els)"
proof (induction t and els arbitrary: q and q rule: subNodes_subNodes_list.induct)
  case (1 ln els d)
  then show ?case by simp
next
  case 2
  show ?case by simp
next
  case (3 key sub rest)
  from 3(3) have k: "key \<noteq> []" and ws: "wellFormed sub" and wr: "wellFormed_list rest" by simp_all
  from 3(4) have tl: "totalLabel (fullLabel q) key = fullLabel (q @ [key])"
    by (rule totalLabel_fullLabel)
  from k have ne: "q @ [key] = [] \<or> fullLabel (q @ [key]) \<noteq> []"
    by (simp add: fullLabel_nonempty)
  from 3(1) [OF ws ne] 3(2) [OF wr 3(4)] tl show ?case
    by (simp add: comp_def case_prod_beta)
qed

lemma exits_labels:
  "wellFormed t \<Longrightarrow> q = [] \<or> fullLabel q \<noteq> [] \<Longrightarrow>
     exits (events (fullLabel q) t) = map (\<lambda>(path, node). (fullLabel (q @ path), node)) (subNodesPost t)"
  "wellFormed_list els \<Longrightarrow> q = [] \<or> fullLabel q \<noteq> [] \<Longrightarrow>
     exits (events_loop (fullLabel q) els) =
       map (\<lambda>(path, node). (fullLabel (q @ path), node)) (subNodesPost_list els)"
proof (induction t and els arbitrary: q and q rule: subNodesPost_subNodesPost_list.induct)
  case (1 ln els d)
  then show ?case by simp
next
  case 2
  show ?case by simp
next
  case (3 key sub rest)
  from 3(3) have k: "key \<noteq> []" and ws: "wellFormed sub" and wr: "wellFormed_list rest" by simp_all
  from 3(4) have tl: "totalLabel (fullLabel q) key = fullLabel (q @ [key])"
    by (rule totalLabel_fullLabel)
  from k have ne: "q @ [key] = [] \<or> fullLabel (q @ [key]) \<noteq> []"
    by (simp add: fullLabel_nonempty)
  from 3(1) [OF ws ne] 3(2) [OF wr 3(4)] tl show ?case
    by (simp add: comp_def case_prod_beta)
qed

subsection \<open>Paths and labels\<close>

lemma segments_nonempty: "segments s \<noteq> []"
  by (induction s) (auto split: list.splits)

lemma segments_nodot: "CHR 0x2E \<notin> set s \<Longrightarrow> segments s = [s]"
  by (induction s) auto

lemma segments_dot: "CHR 0x2E \<notin> set s \<Longrightarrow> segments (s @ CHR 0x2E # r) = s # segments r"
  by (induction s) auto

lemma fullLabel_Cons: "rest \<noteq> [] \<Longrightarrow> fullLabel (seg # rest) = seg @ CHR 0x2E # fullLabel rest"
  by (cases rest) simp_all

lemma segments_fullLabel:
  "p \<noteq> [] \<Longrightarrow> \<forall>s \<in> set p. CHR 0x2E \<notin> set s \<Longrightarrow> segments (fullLabel p) = p"
proof (induction p rule: fullLabel.induct)
  case 1
  then show ?case by simp
next
  case (2 seg)
  then show ?case by (simp add: segments_nodot)
next
  case (3 seg v va)
  then show ?case by (simp add: segments_dot)
qed

lemma fullLabel_segments: "fullLabel (segments s) = s"
proof (induction s)
  case Nil
  show ?case by simp
next
  case (Cons c cs)
  show ?case
  proof (cases "c = CHR 0x2E")
    case True
    with Cons segments_nonempty [of cs] show ?thesis by (simp add: fullLabel_Cons)
  next
    case False
    obtain seg segs where s: "segments cs = seg # segs"
      using segments_nonempty [of cs] by (cases "segments cs") auto
    with Cons False show ?thesis by (cases segs) auto
  qed
qed

lemma segments_inj:
  assumes "segments a = segments b"
  shows "a = b"
proof -
  from assms have "fullLabel (segments a) = fullLabel (segments b)" by (rule arg_cong)
  then show ?thesis by (simp only: fullLabel_segments)
qed

lemma subNodes_paths:
  "wellFormed t \<Longrightarrow> (p, n) \<in> set (subNodes t) \<Longrightarrow> p \<noteq> [] \<and> (\<forall>s \<in> set p. CHR 0x2E \<notin> set s)"
  "wellFormed_list els \<Longrightarrow> (p, n) \<in> set (subNodes_list els) \<Longrightarrow>
     p \<noteq> [] \<and> (\<forall>s \<in> set p. CHR 0x2E \<notin> set s)"
  by (induction t and els arbitrary: p n and p n rule: subNodes_subNodes_list.induct) auto

lemma subNodes_list_head:
  "(p, n) \<in> set (subNodes_list els) \<Longrightarrow> p \<noteq> [] \<and> hd p \<in> fst ` set els"
  by (induction els) auto

lemma subNodes_nonempty: "(p, n) \<in> set (subNodes t) \<Longrightarrow> p \<noteq> []"
  using subNodes_list_head by (cases t) auto

lemma subNodes_list_paths:
  "map fst (subNodes_list ((key, sub) # rest)) =
     [key] # map ((#) key) (map fst (subNodes sub)) @ map fst (subNodes_list rest)"
  by (simp add: comp_def case_prod_beta)

lemma subNodes_distinct:
  "wellFormed t \<Longrightarrow> distinct (map fst (subNodes t))"
  "wellFormed_list els \<Longrightarrow> distinct (map fst els) \<Longrightarrow> distinct (map fst (subNodes_list els))"
proof (induction t and els rule: subNodes_subNodes_list.induct)
  case (1 ln els d)
  then show ?case by simp
next
  case 2
  show ?case by simp
next
  case (3 key sub rest)
  let ?P = "map fst (subNodes sub)" and ?R = "map fst (subNodes_list rest)"
  from 3(3,4) have ws: "wellFormed sub" and wr: "wellFormed_list rest"
    and dr: "distinct (map fst rest)" and kr: "key \<notin> fst ` set rest" by simp_all
  have a: "distinct (map ((#) key) ?P)"
    using 3(1) [OF ws] by (subst distinct_map) (simp add: inj_on_def)
  have "[] \<notin> set ?P"
    using subNodes_nonempty [of "[]" _ sub] by auto
  then have b: "[key] \<notin> set (map ((#) key) ?P)" by auto
  have c: "hd p \<noteq> key" "p \<noteq> []" if "p \<in> set ?R" for p
  proof -
    from that obtain n where "(p, n) \<in> set (subNodes_list rest)" by auto
    from subNodes_list_head [OF this] kr show "hd p \<noteq> key" "p \<noteq> []" by auto
  qed
  have d: "[key] \<notin> set ?R"
  proof
    assume "[key] \<in> set ?R"
    from c(1) [OF this] show False by simp
  qed
  have e: "set (map ((#) key) ?P) \<inter> set ?R = {}"
  proof (rule ccontr)
    assume "set (map ((#) key) ?P) \<inter> set ?R \<noteq> {}"
    then obtain p where p: "p \<in> set (map ((#) key) ?P)" "p \<in> set ?R" by blast
    from p(1) have "hd p = key" by auto
    with c(1) [OF p(2)] show False by simp
  qed
  from a b d e 3(2) [OF wr dr] show ?case
    unfolding subNodes_list_paths by simp
qed

lemma labels_distinct:
  assumes "wellFormed t"
  shows "distinct (map (\<lambda>(path, node). fullLabel path) (subNodes t))"
proof -
  have inj: "inj_on fullLabel (set (map fst (subNodes t)))"
  proof (rule inj_onI)
    fix p q
    assume "p \<in> set (map fst (subNodes t))" "q \<in> set (map fst (subNodes t))"
      and eq: "fullLabel p = fullLabel q"
    then obtain m n where mn: "(p, m) \<in> set (subNodes t)" "(q, n) \<in> set (subNodes t)" by auto
    from subNodes_paths(1) [OF assms mn(1)] have p: "segments (fullLabel p) = p"
      by (intro segments_fullLabel) simp_all
    from subNodes_paths(1) [OF assms mn(2)] have q: "segments (fullLabel q) = q"
      by (intro segments_fullLabel) simp_all
    from p [symmetric] q eq show "p = q" by (simp only:)
  qed
  have "distinct (map fullLabel (map fst (subNodes t)))"
    using subNodes_distinct(1) [OF assms] inj by (simp only: distinct_map simp_thms)
  moreover have "map fullLabel (map fst (subNodes t)) =
      map (\<lambda>(path, node). fullLabel path) (subNodes t)"
    by (simp add: case_prod_beta)
  ultimately show ?thesis by (simp only:)
qed

subsection \<open>getEntry and insertion\<close>

declare getEntry.simps [simp del]

lemma indexOf_absent: "c \<notin> set s \<Longrightarrow> indexOf s c = - 1"
  by (simp add: indexOf_def)

lemma indexOf_present:
  "c \<notin> set a \<Longrightarrow> indexOf (a @ c # r) c = int (length a)"
  by (simp add: indexOf_def takeWhile_append)

lemma split_first_dot:
  "CHR 0x2E \<in> set s \<Longrightarrow> \<exists>a r. s = a @ CHR 0x2E # r \<and> CHR 0x2E \<notin> set a"
  by (meson split_list_first)

lemma getEntry_nodot:
  "CHR 0x2E \<notin> set label \<Longrightarrow> getEntry t label = map_of (elements t) label"
  by (subst getEntry.simps) (simp add: indexOf_absent)

lemma getEntry_dot:
  assumes "CHR 0x2E \<notin> set a"
  shows "getEntry t (a @ CHR 0x2E # r) =
     (case map_of (elements t) a of None \<Rightarrow> None | Some entry \<Rightarrow> getEntry entry r)"
proof -
  have k: "indexOf (a @ CHR 0x2E # r) (CHR 0x2E) = int (length a)"
    using assms by (rule indexOf_present)
  have n: "nat (int (length a) + 1) = Suc (length a)" by simp
  show ?thesis
    by (subst getEntry.simps) (simp add: k n Let_def del: of_nat_Suc)
qed

lemma getEntry_nodeAt: "getEntry t label = nodeAt t (segments label)"
proof (induction "length label" arbitrary: t label rule: less_induct)
  case less
  show ?case
  proof (cases "CHR 0x2E \<in> set label")
    case False
    then show ?thesis
      by (simp add: getEntry_nodot segments_nodot split: option.splits)
  next
    case True
    then obtain a r where l: "label = a @ CHR 0x2E # r" and a: "CHR 0x2E \<notin> set a"
      using split_first_dot by blast
    from l have "length r < length label" by simp
    then have "getEntry e r = nodeAt e (segments r)" for e by (rule less)
    with a show ?thesis
      unfolding l by (simp add: getEntry_dot segments_dot split: option.splits)
  qed
qed

lemma nodeAt_newEntry: "nodeAt newEntry q \<noteq> None \<longleftrightarrow> q = []"
  by (cases q) (simp_all add: newEntry_def)

lemma map_of_update:
  "map_of (AList.update k v al) k' = (if k' = k then Some v else map_of al k')"
  by (simp add: update_conv')

lemma insertPath_defined:
  "nodeAt (insertPath p ln t) q \<noteq> None \<longleftrightarrow> prefix q p \<or> nodeAt t q \<noteq> None"
proof (induction p arbitrary: t q)
  case Nil
  show ?case by (cases q) simp_all
next
  case (Cons seg rest)
  show ?case
  proof (cases q)
    case Nil
    then show ?thesis by simp
  next
    case (Cons s q')
    show ?thesis
    proof (cases "s = seg")
      case False
      with Cons show ?thesis by (simp add: map_of_update Let_def)
    next
      case True
      show ?thesis
      proof (cases "map_of (elements t) seg")
        case None
        with True Cons Cons.IH [of newEntry q'] show ?thesis
          using nodeAt_newEntry [of q'] by (auto simp: map_of_update Let_def)
      next
        case (Some entry)
        with True Cons Cons.IH [of entry q'] show ?thesis
          by (simp add: map_of_update Let_def)
      qed
    qed
  qed
qed

lemma insertPath_same:
  "\<exists>node. nodeAt (insertPath p ln t) p = Some node \<and> lineNumber node = ln"
  by (induction p arbitrary: t) (simp_all add: map_of_update Let_def)

lemma insertPath_other:
  "q \<noteq> p \<Longrightarrow> nodeAt t q = Some n \<Longrightarrow>
   \<exists>n'. nodeAt (insertPath p ln t) q = Some n' \<and> lineNumber n' = lineNumber n"
proof (induction p arbitrary: t q n)
  case Nil
  then show ?case by (cases q) simp_all
next
  case (Cons seg rest)
  show ?case
  proof (cases q)
    case Nil
    with Cons.prems show ?thesis by simp
  next
    case q: (Cons s q')
    show ?thesis
    proof (cases "s = seg")
      case False
      with q Cons.prems show ?thesis by (simp add: map_of_update Let_def)
    next
      case True
      with q Cons.prems obtain entry where e: "map_of (elements t) seg = Some entry"
        and n: "nodeAt entry q' = Some n" and ne: "q' \<noteq> rest"
        by (auto split: option.splits)
      from Cons.IH [OF ne n] e True q show ?thesis
        by (simp add: map_of_update Let_def)
    qed
  qed
qed

lemma buildTree_snoc:
  "buildTree (labels @ [(label, ln)]) = insertPath (segments label) ln (buildTree labels)"
  by (simp add: buildTree_def insertLabel_def)

lemma buildTree_defined:
  "nodeAt (buildTree labels) q \<noteq> None \<longleftrightarrow>
     q = [] \<or> (\<exists>p \<in> fst ` set labels. prefix q (segments p))"
proof (induction labels rule: rev_induct)
  case Nil
  show ?case using nodeAt_newEntry [of q] by (simp add: buildTree_def)
next
  case (snoc x labels)
  obtain label ln where x: "x = (label, ln)" by (cases x)
  show ?case
    unfolding x buildTree_snoc insertPath_defined snoc.IH by auto
qed

lemma buildTree_line:
  "map_of (rev labels) label = Some ln \<Longrightarrow>
   \<exists>node. nodeAt (buildTree labels) (segments label) = Some node \<and> lineNumber node = ln"
proof (induction labels rule: rev_induct)
  case Nil
  then show ?case by simp
next
  case (snoc x labels)
  obtain l' ln' where x: "x = (l', ln')" by (cases x)
  show ?case
  proof (cases "label = l'")
    case True
    with snoc.prems x have "ln' = ln" by simp
    with True x insertPath_same [of "segments label" ln "buildTree labels"] show ?thesis
      by (simp add: buildTree_snoc)
  next
    case False
    with snoc.prems x have "map_of (rev labels) label = Some ln" by simp
    from snoc.IH [OF this] obtain node
      where n: "nodeAt (buildTree labels) (segments label) = Some node" "lineNumber node = ln"
      by blast
    from False have "segments label \<noteq> segments l'" using segments_inj by blast
    from insertPath_other [OF this n(1), of ln'] n(2) x show ?thesis
      by (simp add: buildTree_snoc)
  qed
qed

lemma segments_append:
  "segments (a @ CHR 0x2E # b) = segments a @ segments b"
proof (induction a)
  case Nil
  show ?case by simp
next
  case (Cons c cs)
  obtain seg segs where "segments cs = seg # segs"
    using segments_nonempty [of cs] by (cases "segments cs") auto
  with Cons show ?case by auto
qed

subsection \<open>Descriptions of the nodes\<close>

text \<open>
  Claim C8. Running \<open>setDescriptions\<close> a second time on the tree left by a first run,
  with the same lines, gives the same tree (and ends the same way): every description
  and everything else in every node is as after the first run.
\<close>

theorem setDescriptions_idempotent:
  "setDescriptions g lines (fst (setDescriptions g lines t)) = setDescriptions g lines t"
  by (rule setDescriptions_twice)

text \<open>
  Claim C2, amended. After a run of \<open>setDescriptions\<close> that ends without an exception,
  the description of every node, the root included, is the result of
  \<open>getSingleDescription\<close> for the line number of the node: a string, the empty one
  included, or absence. It is absent when the line number is negative, the sentinel
  \<open>-1\<close> included, and it is absent exactly when the scan upwards finds no line to start
  from: the line number is at most \<open>0\<close>, or only blank lines lie above the label, or the
  three lines above the label are blank. A node with a line number other than the
  sentinel can therefore end with an absent description.
\<close>

theorem description_outcome:
  assumes "setDescriptions g lines root = (root', None)" and "n \<in> set (allNodes root')"
  shows "getSingleDescription g (lineNumber n) lines = Inr (description n) \<and>
         (lineNumber n < 0 \<longrightarrow> description n = None) \<and>
         (description n = None \<longleftrightarrow> scanFails lines (lineNumber n))"
proof -
  from setDescriptions_nodes(1) [OF assms]
  have d: "getSingleDescription g (lineNumber n) lines = Inr (description n)" .
  then have i: "description n = None \<longleftrightarrow> scanFails lines (lineNumber n)"
    using getSingleDescription_None_iff [of g "lineNumber n" lines] by auto
  then have "lineNumber n < 0 \<longrightarrow> description n = None" by (simp add: scanFails_def)
  with d i show ?thesis by simp
qed

theorem description_outcome_witness:
  "getSingleDescription id 1 [''; Entry point'', ''main:''] = Inr (Some '' Entry point'') \<and>
   \<not> scanFails [''; Entry point'', ''main:''] 1"
proof -
  let ?L = "[''; Entry point'', ''main:'']"
  let ?n = "HierarchyEntry 1 [] (Some '' Entry point'')"
  let ?R = "HierarchyEntry (- 1) [(''main'', ?n)] None"
  have a: "setDescriptions id ?L (HierarchyEntry (- 1) [(''main'', HierarchyEntry 1 [] None)] None)
      = (?R, None)"
    by code_simp
  have b: "?n \<in> set (allNodes ?R)" by (simp add: allNodes_def)
  from description_outcome [OF a b] show ?thesis by simp
qed

text \<open>
  A node with the line number \<open>3\<close> below three blank lines: its description is absent
  after \<open>setDescriptions\<close>, though its line number is not the sentinel.
\<close>

theorem description_absent_counterexample:
  "getEntry (fst (setDescriptions id [ [], [], [], ''main:'']
     (HierarchyEntry (- 1) [(''main'', HierarchyEntry 3 [] None)] None))) ''main'' =
   Some (HierarchyEntry 3 [] None) \<and>
   snd (setDescriptions id [ [], [], [], ''main:'']
     (HierarchyEntry (- 1) [(''main'', HierarchyEntry 3 [] None)] None)) = None"
  by code_simp

lemma subNodes_list_lines:
  "map (\<lambda>(path, node). (path, lineNumber node)) (subNodes_list ((key, sub) # rest)) =
     ([key], lineNumber sub) #
     map (\<lambda>(path, l). (key # path, l)) (map (\<lambda>(path, node). (path, lineNumber node)) (subNodes sub)) @
     map (\<lambda>(path, node). (path, lineNumber node)) (subNodes_list rest)"
  by (simp add: case_prod_beta comp_def)

lemma setDescriptions_paths:
  "map (\<lambda>(path, node). (path, lineNumber node)) (subNodes (fst (setDescriptions g lines t))) =
   map (\<lambda>(path, node). (path, lineNumber node)) (subNodes t)"
  "map (\<lambda>(path, node). (path, lineNumber node))
     (subNodes_list (fst (setDescriptions_loop g lines els))) =
   map (\<lambda>(path, node). (path, lineNumber node)) (subNodes_list els)"
proof (induction g lines t and g lines els rule: setDescriptions_setDescriptions_loop.induct)
  case (1 g lines ln els d)
  then show ?case by (auto split: sum.splits prod.splits)
next
  case (2 g lines)
  show ?case by simp
next
  case (3 g lines label sublabel rest)
  have ln: "lineNumber (fst (setDescriptions g lines sublabel)) = lineNumber sublabel"
    by (cases sublabel) (auto split: sum.splits prod.splits)
  show ?case
  proof (cases "setDescriptions g lines sublabel")
    case (Pair sub' err)
    with 3(1) ln have s: "map (\<lambda>(path, node). (path, lineNumber node)) (subNodes sub') =
        map (\<lambda>(path, node). (path, lineNumber node)) (subNodes sublabel)"
      and l: "lineNumber sub' = lineNumber sublabel" by simp_all
    show ?thesis
    proof (cases err)
      case (Some e)
      with Pair have "fst (setDescriptions_loop g lines ((label, sublabel) # rest)) =
          (label, sub') # rest" by simp
      then show ?thesis by (simp only: subNodes_list_lines s l)
    next
      case None
      obtain rest' err' where r: "setDescriptions_loop g lines rest = (rest', err')"
        by (cases "setDescriptions_loop g lines rest")
      with 3(2) Pair None
      have ih: "map (\<lambda>(path, node). (path, lineNumber node)) (subNodes_list rest') =
          map (\<lambda>(path, node). (path, lineNumber node)) (subNodes_list rest)" by simp
      from Pair None r have "fst (setDescriptions_loop g lines ((label, sublabel) # rest)) =
          (label, sub') # rest'" by simp
      then show ?thesis by (simp only: subNodes_list_lines s l ih)
    qed
  qed
qed

lemma eraseDescriptions_keys: "map fst (eraseDescriptions_list els) = map fst els"
  by (induction els) auto

lemma eraseDescriptions_top:
  "lineNumber (eraseDescriptions t) = lineNumber t"
  "map fst (elements (eraseDescriptions t)) = map fst (elements t)"
  by (cases t; simp add: eraseDescriptions_keys)+

lemma setDescriptions_top:
  "lineNumber (fst (setDescriptions g lines t)) = lineNumber t"
  "map fst (elements (fst (setDescriptions g lines t))) = map fst (elements t)"
proof -
  let ?t' = "fst (setDescriptions g lines t)"
  have e: "eraseDescriptions ?t' = eraseDescriptions t" by (rule setDescriptions_erase)
  have "lineNumber ?t' = lineNumber (eraseDescriptions ?t')"
    by (simp only: eraseDescriptions_top)
  also have "\<dots> = lineNumber t" by (simp only: e eraseDescriptions_top)
  finally show "lineNumber ?t' = lineNumber t" .
  have "map fst (elements ?t') = map fst (elements (eraseDescriptions ?t'))"
    by (simp only: eraseDescriptions_top)
  also have "\<dots> = map fst (elements t)" by (simp only: e eraseDescriptions_top)
  finally show "map fst (elements ?t') = map fst (elements t)" .
qed

lemma enters_subset: "snd ` set (enters (recorded t)) \<subseteq> set (allNodes t)"
proof -
  have "snd ` set (enters (recorded t)) = set (map snd (enters (events [] t)))"
    by (simp add: recorded_def recordedFrom_events)
  also have "\<dots> = set (map snd (subNodes t))" by (simp only: enters_nodes)
  finally show ?thesis by (auto simp: allNodes_def)
qed

lemma exits_subset: "snd ` set (exits (recorded t)) \<subseteq> set (allNodes t)"
proof -
  have "snd ` set (exits (recorded t)) = set (map snd (exits (events [] t)))"
    by (simp add: recorded_def recordedFrom_events)
  also have "\<dots> = set (map snd (subNodesPost t))" by (simp only: exits_nodes)
  also have "\<dots> = set (map snd (subNodes t))" by (simp add: subNodesPost_set)
  finally show ?thesis by (auto simp: allNodes_def)
qed

text \<open>
  Claim C9. \<open>setDescriptions\<close> changes descriptions only: the tree without its
  descriptions is the same before and after, so the line number of every node, the keys
  of every map and their order, and the children under each key are unchanged.
  \<open>iterate\<close> assigns to no field: its effect is the sequence of handler calls alone, and
  every node handed to a handler is a node of the tree as it was at the start.
\<close>

theorem frame_conditions:
  "eraseDescriptions (fst (setDescriptions g lines t)) = eraseDescriptions t \<and>
   lineNumber (fst (setDescriptions g lines t)) = lineNumber t \<and>
   map fst (elements (fst (setDescriptions g lines t))) = map fst (elements t) \<and>
   map (\<lambda>(path, node). (path, lineNumber node)) (subNodes (fst (setDescriptions g lines t))) =
     map (\<lambda>(path, node). (path, lineNumber node)) (subNodes t) \<and>
   iterate enterHandler exitHandler [] t s =
     fold (applyEvent enterHandler exitHandler) (recorded t) s \<and>
   snd ` set (enters (recorded t)) \<subseteq> set (allNodes t) \<and>
   snd ` set (exits (recorded t)) \<subseteq> set (allNodes t)"
  by (simp only: setDescriptions_erase setDescriptions_top setDescriptions_paths
      iterate_events recorded_def recordedFrom_events
      enters_subset [unfolded recorded_def recordedFrom_events]
      exits_subset [unfolded recorded_def recordedFrom_events] simp_thms)

subsection \<open>Lookup in built trees\<close>

lemma nodeAt_append_None: "nodeAt t q = None \<Longrightarrow> nodeAt t (q @ r) = None"
  by (induction q arbitrary: t) (auto split: option.splits)

lemma exampleTree_built:
  "buildTree [(''a.b.c'', 10), (''a.b.d'', 20), (''a.e'', 30)] = exampleTree"
  by code_simp

lemma nodeAt_append:
  "nodeAt t (q @ r) = (case nodeAt t q of None \<Rightarrow> None | Some node \<Rightarrow> nodeAt node r)"
  by (induction q arbitrary: t) (auto split: option.splits)

lemma insertPath_lineNumber: "p \<noteq> [] \<Longrightarrow> lineNumber (insertPath p ln t) = lineNumber t"
  by (cases p) (simp_all add: Let_def)

lemma insertPath_created:
  "nodeAt t q = None \<Longrightarrow> q \<noteq> p \<Longrightarrow> nodeAt (insertPath p ln t) q = Some n \<Longrightarrow>
   lineNumber n = - 1"
proof (induction p arbitrary: t q n)
  case Nil
  then show ?case by (cases q) simp_all
next
  case (Cons seg rest)
  show ?case
  proof (cases q)
    case Nil
    with Cons.prems show ?thesis by simp
  next
    case q: (Cons s q')
    show ?thesis
    proof (cases "s = seg")
      case False
      with q Cons.prems show ?thesis by (simp add: map_of_update Let_def)
    next
      case True
      with q Cons.prems have ne: "q' \<noteq> rest" by simp
      show ?thesis
      proof (cases "map_of (elements t) seg")
        case None
        with True q Cons.prems
        have n: "nodeAt (insertPath rest ln newEntry) q' = Some n"
          by (simp add: map_of_update Let_def)
        show ?thesis
        proof (cases "q' = []")
          case True
          with n ne insertPath_lineNumber [of rest ln newEntry] show ?thesis
            by (auto simp: newEntry_def)
        next
          case False
          then have "nodeAt newEntry q' = None" using nodeAt_newEntry [of q'] by simp
          from Cons.IH [OF this ne n] show ?thesis .
        qed
      next
        case (Some entry)
        with True q Cons.prems
        have "nodeAt entry q' = None" and "nodeAt (insertPath rest ln entry) q' = Some n"
          by (simp_all add: map_of_update Let_def)
        from Cons.IH [OF this(1) ne this(2)] show ?thesis .
      qed
    qed
  qed
qed

lemma buildTree_sentinel:
  "q \<notin> segments ` fst ` set labels \<Longrightarrow> nodeAt (buildTree labels) q = Some n \<Longrightarrow>
   lineNumber n = - 1"
proof (induction labels arbitrary: n rule: rev_induct)
  case Nil
  then have "q = []" using nodeAt_newEntry [of q] by (simp add: buildTree_def)
  with Nil show ?case by (auto simp: buildTree_def newEntry_def)
next
  case (snoc x labels)
  obtain l ln where x: "x = (l, ln)" by (cases x)
  from snoc.prems(1) x have ql: "q \<noteq> segments l" and qs: "q \<notin> segments ` fst ` set labels"
    by auto
  from snoc.prems(2) x have n: "nodeAt (insertPath (segments l) ln (buildTree labels)) q = Some n"
    by (simp add: buildTree_snoc)
  show ?case
  proof (cases "nodeAt (buildTree labels) q")
    case None
    from insertPath_created [OF None ql n] show ?thesis .
  next
    case (Some m)
    from snoc.IH [OF qs Some] have "lineNumber m = - 1" .
    with insertPath_other [OF ql Some, of ln] n show ?thesis by simp
  qed
qed

text \<open>
  Claim C3, amended. In the tree built from an ordered list of label paths, \<open>getEntry\<close>
  of an inserted path returns the node of that path, which carries the line number of the
  last insertion of the path. \<open>getEntry\<close> of a path returns a node exactly when the
  segments of the path are a prefix of the segments of an inserted path: for a proper
  prefix of an inserted path that is the intermediate node, not absence, and it carries
  the sentinel line number when the prefix itself was never inserted. In any tree, the
  node that \<open>getEntry\<close> returns is the node reached from the root by the segments of
  the path, with its children: a lookup that continues behind a dot is the lookup of the
  rest in the node returned for the front. So when \<open>getEntry\<close> of a path is absent, so is
  \<open>getEntry\<close> of every path that continues it behind a dot: a missing segment, such as
  a sibling that was never inserted, gives absence.
\<close>

theorem lookup_after_insertion:
  "(map_of (rev labels) label = Some ln \<longrightarrow>
      (\<exists>node. getEntry (buildTree labels) label = Some node \<and> lineNumber node = ln)) \<and>
   (getEntry (buildTree labels) label \<noteq> None \<longleftrightarrow>
      (\<exists>p \<in> fst ` set labels. prefix (segments label) (segments p))) \<and>
   (getEntry t label = None \<longrightarrow> getEntry t (label @ CHR 0x2E # more) = None) \<and>
   getEntry t label = nodeAt t (segments label) \<and>
   getEntry t (label @ CHR 0x2E # more) =
     (case getEntry t label of None \<Rightarrow> None | Some node \<Rightarrow> getEntry node more) \<and>
   (label \<notin> fst ` set labels \<longrightarrow> getEntry (buildTree labels) label = Some entry \<longrightarrow>
      lineNumber entry = - 1)"
proof -
  have c1: "map_of (rev labels) label = Some ln \<longrightarrow>
      (\<exists>node. getEntry (buildTree labels) label = Some node \<and> lineNumber node = ln)"
    using buildTree_line [of labels label ln] by (simp add: getEntry_nodeAt)
  have c2: "getEntry (buildTree labels) label \<noteq> None \<longleftrightarrow>
      (\<exists>p \<in> fst ` set labels. prefix (segments label) (segments p))"
    using buildTree_defined [of labels "segments label"] segments_nonempty [of label]
    by (simp add: getEntry_nodeAt)
  have c5: "getEntry t (label @ CHR 0x2E # more) =
     (case getEntry t label of None \<Rightarrow> None | Some node \<Rightarrow> getEntry node more)"
    by (simp add: getEntry_nodeAt segments_append nodeAt_append split: option.splits)
  then have c3: "getEntry t label = None \<longrightarrow> getEntry t (label @ CHR 0x2E # more) = None"
    by simp
  have c4: "getEntry t label = nodeAt t (segments label)" by (rule getEntry_nodeAt)
  have c6: "label \<notin> fst ` set labels \<longrightarrow> getEntry (buildTree labels) label = Some entry \<longrightarrow>
      lineNumber entry = - 1"
  proof (intro impI)
    assume a: "label \<notin> fst ` set labels" and e: "getEntry (buildTree labels) label = Some entry"
    have "segments label \<notin> segments ` fst ` set labels"
    proof
      assume "segments label \<in> segments ` fst ` set labels"
      then obtain l where "l \<in> fst ` set labels" "segments label = segments l" by blast
      with segments_inj a show False by blast
    qed
    from buildTree_sentinel [OF this] e show "lineNumber entry = - 1"
      by (simp add: getEntry_nodeAt)
  qed
  note parts = c1 c2 c3 c4 c5 c6
  show ?thesis by (intro conjI; fact parts)
qed

theorem lookup_after_insertion_witness:
  "lineNumber (the (getEntry (buildTree [(''text.ula.print'', 7), (''text.clear'', 12)]) ''text.ula.print'')) = 7 \<and>
   getEntry (buildTree [(''text.ula.print'', 7), (''text.clear'', 12)]) ''text.ula'' \<noteq> None \<and>
   lineNumber (the (getEntry (buildTree [(''text.ula.print'', 7), (''text.clear'', 12)]) ''text.ula'')) = - 1 \<and>
   getEntry (buildTree [(''text.ula.print'', 7), (''text.clear'', 12)]) ''text.layer2.print'' = None"
proof -
  let ?L = "[(''text.ula.print'', 7), (''text.clear'', 12)]"
  let ?u = "HierarchyEntry (- 1) [(''print'', HierarchyEntry 7 [] None)] None"
  have a: "map_of (rev ?L) ''text.ula.print'' = Some 7" by simp
  have b: "\<exists>p \<in> fst ` set ?L. prefix (segments ''text.ula'') (segments p)" by simp
  have c: "getEntry (buildTree ?L) ''text.layer2'' = None" by code_simp
  have d: "''text.ula'' \<notin> fst ` set ?L" by simp
  have e: "getEntry (buildTree ?L) ''text.ula'' = Some ?u" by code_simp
  note th1 = lookup_after_insertion [where labels = ?L and label = "''text.ula.print''" and ln = 7
      and t = newEntry and more = "[]" and entry = newEntry]
  note th2 = lookup_after_insertion [where labels = ?L and label = "''text.ula''" and ln = 0
      and t = newEntry and more = "[]" and entry = ?u]
  note th3 = lookup_after_insertion [where labels = "[]" and label = "''text.layer2''" and ln = 0
      and t = "buildTree ?L" and more = "''print''" and entry = newEntry]
  from th1 [THEN conjunct1] a
  have "\<exists>node. getEntry (buildTree ?L) ''text.ula.print'' = Some node \<and> lineNumber node = 7"
    by (rule mp)
  then have 1: "lineNumber (the (getEntry (buildTree ?L) ''text.ula.print'')) = 7" by auto
  from th2 [THEN conjunct2, THEN conjunct1] b
  have 2: "getEntry (buildTree ?L) ''text.ula'' \<noteq> None" by (rule iffD2)
  from th2 [THEN conjunct2, THEN conjunct2, THEN conjunct2, THEN conjunct2, THEN conjunct2] d e
  have "lineNumber ?u = - 1" by blast
  with e have 3: "lineNumber (the (getEntry (buildTree ?L) ''text.ula'')) = - 1" by simp
  from th3 [THEN conjunct2, THEN conjunct2, THEN conjunct1] c
  have "getEntry (buildTree ?L) (''text.layer2'' @ CHR 0x2E # ''print'') = None" by (rule mp)
  then have 4: "getEntry (buildTree ?L) ''text.layer2.print'' = None" by simp
  from 1 2 3 4 show ?thesis by (intro conjI)
qed

text \<open>
  After the insertion of \<open>a.b\<close> alone, \<open>getEntry\<close> of the proper prefix \<open>a\<close> is the
  intermediate node, with the sentinel line number and the child \<open>b\<close>.
\<close>

theorem lookup_prefix_counterexample:
  "getEntry (buildTree [(''a.b'', 5)]) ''a'' =
     Some (HierarchyEntry (- 1) [(''b'', HierarchyEntry 5 [] None)] None)"
  by code_simp

lemma events_loop_concat:
  "events_loop p els =
     concat (map (\<lambda>(key, sub). Enter (totalLabel p key) sub # events (totalLabel p key) sub @
        [Exit (totalLabel p key) sub]) els)"
  by (induction els) auto

lemma recordedFrom_concat:
  "recordedFrom p t =
     concat (map (\<lambda>(key, sub). Enter (totalLabel p key) sub # recordedFrom (totalLabel p key) sub @
        [Exit (totalLabel p key) sub]) (elements t))"
  by (cases t) (simp add: recordedFrom_events events_loop_concat)

lemma paired_recorded: "paired [] (recorded t)"
  using paired_events(1) [of "[]" "[]" t "[]"] by (simp add: recorded_def recordedFrom_events)

lemma enters_recorded_wf:
  assumes "wellFormed t"
  shows "enters (recorded t) = map (\<lambda>(path, node). (fullLabel path, node)) (subNodes t)"
    and "exits (recorded t) = map (\<lambda>(path, node). (fullLabel path, node)) (subNodesPost t)"
  using enters_labels(1) [OF assms, of "[]"] exits_labels(1) [OF assms, of "[]"]
  by (simp_all add: recorded_def recordedFrom_events)

lemma labels_distinct_post:
  assumes "wellFormed t"
  shows "distinct (map (\<lambda>(path, node). fullLabel path) (subNodesPost t))"
proof -
  let ?f = "\<lambda>(path, node). fullLabel path"
  have d: "distinct (map ?f (subNodes t))" using assms by (rule labels_distinct)
  have l: "length (subNodesPost t) = length (subNodes t)"
    "length (subNodesPost_list els) = length (subNodes_list els)" for t els
    by (induction t and els rule: subNodesPost_subNodesPost_list.induct) simp_all
  from distinct_card [OF d] have "card (?f ` set (subNodes t)) = length (subNodes t)"
    by simp
  then have "card (set (map ?f (subNodesPost t))) = length (map ?f (subNodesPost t))"
    by (simp add: subNodesPost_set l)
  then show ?thesis by (rule card_distinct)
qed

subsection \<open>The traversal\<close>

lemma recorded_top:
  "recorded t =
     concat (map (\<lambda>(key, sub). Enter key sub # recordedFrom key sub @ [Exit key sub]) (elements t))"
  unfolding recorded_def by (subst recordedFrom_concat) (simp add: totalLabel_def)

lemma recordedFrom_inner:
  "p \<noteq> [] \<Longrightarrow> recordedFrom p t =
     concat (map (\<lambda>(key, sub). Enter (p @ [CHR 0x2E] @ key) sub #
        recordedFrom (p @ [CHR 0x2E] @ key) sub @ [Exit (p @ [CHR 0x2E] @ key) sub]) (elements t))"
  by (subst recordedFrom_concat) (simp add: totalLabel_def)

lemma root_not_visited:
  "t \<notin> snd ` set (enters (recorded t))" "t \<notin> snd ` set (exits (recorded t))"
proof -
  have "snd ` set (enters (recorded t)) = set (map snd (enters (events [] t)))"
    by (simp add: recorded_def recordedFrom_events)
  also have "\<dots> = snd ` set (subNodes t)" by (simp only: enters_nodes set_map)
  finally show "t \<notin> snd ` set (enters (recorded t))" using root_not_subNode by simp
  have "snd ` set (exits (recorded t)) = set (map snd (exits (events [] t)))"
    by (simp add: recorded_def recordedFrom_events)
  also have "\<dots> = snd ` set (subNodesPost t)" by (simp only: exits_nodes set_map)
  also have "\<dots> = snd ` set (subNodes t)" by (simp only: subNodesPost_set)
  finally show "t \<notin> snd ` set (exits (recorded t))" using root_not_subNode by simp
qed

lemma recorded_nodes:
  "map snd (enters (recorded t)) = map snd (subNodes t)"
  "map snd (exits (recorded t)) = map snd (subNodesPost t)"
  by (simp_all add: recorded_def recordedFrom_events enters_nodes exits_nodes)

lemma recorded_distinct:
  assumes "wellFormed t"
  shows "distinct (map fst (enters (recorded t)))" and "distinct (map fst (exits (recorded t)))"
proof -
  have f: "map fst (map (\<lambda>(path, node). (fullLabel path, node)) xs) =
      map (\<lambda>(path, node). fullLabel path) xs" for xs :: "(string list \<times> HierarchyEntry) list"
    by (simp add: case_prod_beta)
  show "distinct (map fst (enters (recorded t)))"
    using labels_distinct [OF assms] by (simp only: enters_recorded_wf [OF assms] f)
  show "distinct (map fst (exits (recorded t)))"
    using labels_distinct_post [OF assms] by (simp only: enters_recorded_wf [OF assms] f)
qed

lemma example_events:
  "map (\<lambda>ev. case ev of Enter label entry \<Rightarrow> (''enter'', label) | Exit label entry \<Rightarrow> (''exit'', label))
     (recorded exampleTree) =
   [(''enter'', ''a''), (''enter'', ''a.b''), (''enter'', ''a.b.c''), (''exit'', ''a.b.c''),
    (''enter'', ''a.b.d''), (''exit'', ''a.b.d''), (''exit'', ''a.b''),
    (''enter'', ''a.e''), (''exit'', ''a.e''), (''exit'', ''a'')]"
  by code_simp

text \<open>
  Claim C4. For every tree, the handlers of \<open>iterate\<close> are called as the recorded list
  says, whatever they do. The list visits the children of a node in the order of its
  map; for each child it holds the enter call, then the calls for the descendants of the
  child, then the exit call with the same label and node; the label is the key alone
  below the root and the label of the parent, a dot and the key below a node with a label.
  The nodes entered are the nodes below the root, each position once, parents first; the
  nodes exited are the same, children first; every exit closes the latest enter still
  pending; the root is neither entered nor exited. In a tree whose keys are distinct in each
  map, not empty and without a dot, the label of a node is its path joined with dots, and no
  label is entered or exited twice. For the tree of \<open>a.b.c\<close>, \<open>a.b.d\<close> and \<open>a.e\<close> the calls
  are enter \<open>a\<close>, enter \<open>a.b\<close>, enter and exit \<open>a.b.c\<close>, enter and exit \<open>a.b.d\<close>, exit
  \<open>a.b\<close>, enter and exit \<open>a.e\<close>, exit \<open>a\<close>.
\<close>

theorem traversal:
  "iterate enterHandler exitHandler [] t s =
     fold (applyEvent enterHandler exitHandler) (recorded t) s \<and>
   recorded t =
     concat (map (\<lambda>(key, sub). Enter key sub # recordedFrom key sub @ [Exit key sub]) (elements t)) \<and>
   (p \<noteq> [] \<longrightarrow> recordedFrom p t =
     concat (map (\<lambda>(key, sub). Enter (p @ [CHR 0x2E] @ key) sub #
        recordedFrom (p @ [CHR 0x2E] @ key) sub @ [Exit (p @ [CHR 0x2E] @ key) sub]) (elements t))) \<and>
   map snd (enters (recorded t)) = map snd (subNodes t) \<and>
   map snd (exits (recorded t)) = map snd (subNodesPost t) \<and>
   paired [] (recorded t) \<and>
   t \<notin> snd ` set (enters (recorded t)) \<and> t \<notin> snd ` set (exits (recorded t)) \<and>
   (wellFormed t \<longrightarrow>
      enters (recorded t) = map (\<lambda>(path, node). (fullLabel path, node)) (subNodes t) \<and>
      exits (recorded t) = map (\<lambda>(path, node). (fullLabel path, node)) (subNodesPost t) \<and>
      distinct (map fst (enters (recorded t))) \<and> distinct (map fst (exits (recorded t)))) \<and>
   map (\<lambda>ev. case ev of Enter label entry \<Rightarrow> (''enter'', label) | Exit label entry \<Rightarrow> (''exit'', label))
     (recorded exampleTree) =
   [(''enter'', ''a''), (''enter'', ''a.b''), (''enter'', ''a.b.c''), (''exit'', ''a.b.c''),
    (''enter'', ''a.b.d''), (''exit'', ''a.b.d''), (''exit'', ''a.b''),
    (''enter'', ''a.e''), (''exit'', ''a.e''), (''exit'', ''a'')]"
proof -
  have calls: "iterate enterHandler exitHandler [] t s =
     fold (applyEvent enterHandler exitHandler) (recorded t) s"
    by (simp only: iterate_events recorded_def recordedFrom_events)
  have inner: "p \<noteq> [] \<longrightarrow> recordedFrom p t =
     concat (map (\<lambda>(key, sub). Enter (p @ [CHR 0x2E] @ key) sub #
        recordedFrom (p @ [CHR 0x2E] @ key) sub @ [Exit (p @ [CHR 0x2E] @ key) sub]) (elements t))"
    using recordedFrom_inner [of p t] by (rule impI)
  have wf: "wellFormed t \<longrightarrow>
      enters (recorded t) = map (\<lambda>(path, node). (fullLabel path, node)) (subNodes t) \<and>
      exits (recorded t) = map (\<lambda>(path, node). (fullLabel path, node)) (subNodesPost t) \<and>
      distinct (map fst (enters (recorded t))) \<and> distinct (map fst (exits (recorded t)))"
    using enters_recorded_wf [of t] recorded_distinct [of t] by (intro impI conjI)
  note parts = calls recorded_top [of t] inner recorded_nodes [of t] paired_recorded [of t]
    root_not_visited [of t] wf example_events
  show ?thesis by (intro conjI; fact parts)
qed

theorem traversal_witness:
  "map fst (enters (recorded exampleTree)) = [''a'', ''a.b'', ''a.b.c'', ''a.b.d'', ''a.e''] \<and>
   distinct (map fst (enters (recorded exampleTree))) \<and>
   enters (recorded exampleTree) =
     map (\<lambda>(path, node). (fullLabel path, node)) (subNodes exampleTree)"
proof -
  have w: "wellFormed exampleTree" by code_simp
  have e: "map fst (enters (recorded exampleTree)) = [''a'', ''a.b'', ''a.b.c'', ''a.b.d'', ''a.e'']"
    by code_simp
  have p: "''a'' \<noteq> []" by simp
  from traversal [where t = exampleTree and p = "''a''" and s = "[]"
      and enterHandler = "\<lambda>label entry s. s @ [Enter label entry]"
      and exitHandler = "\<lambda>label entry s. s @ [Exit label entry]"] w p e
  show ?thesis by blast
qed


end
